theory Spec2Isabelle
  imports Main "HOL-Library.Word"
begin

unbundle bit_operations_syntax

section \<open>Machine types and errors\<close>

text \<open>
  Go's \<^verbatim>\<open>byte\<close>, \<^verbatim>\<open>uint32\<close> and \<^verbatim>\<open>uint64\<close> are words whose arithmetic wraps.
  An \<^verbatim>\<open>int64\<close> is a 64-bit word read through \<open>sint\<close>; the conversions
  \<^verbatim>\<open>int64(x)\<close> and \<^verbatim>\<open>uint64(x)\<close> between the two keep the bits.  The length of a
  slice is a \<open>nat\<close>, converted with \<open>of_nat\<close> where the code converts it.
\<close>

type_synonym byte = "8 word"
type_synonym uint32 = "32 word"
type_synonym uint64 = "64 word"
type_synonym int64 = "64 word"

text \<open>
  The errors of the package: \<^verbatim>\<open>io.EOF\<close>, any failure of the operating system
  (\<open>IOError\<close>), a failure of the record codec (\<open>CodecError\<close>), and a run-time panic
  of Go (a slice expression out of range, \<^verbatim>\<open>make\<close> with a length out of range),
  which is no error value in Go but ends the call all the same.
\<close>

datatype error = EOF | IOError | CodecError | Panic

section \<open>\<^verbatim>\<open>encoding/binary\<close>: the big-endian byte order \<^verbatim>\<open>enc\<close>\<close>

text \<open>
  \<^verbatim>\<open>enc = binary.BigEndian\<close>.  \<^verbatim>\<open>PutUint64(b, v)\<close> stores \<^verbatim>\<open>byte(v >> 56)\<close> in
  \<^verbatim>\<open>b[0]\<close> down to \<^verbatim>\<open>byte(v)\<close> in \<^verbatim>\<open>b[7]\<close>; \<^verbatim>\<open>Uint64(b)\<close> is
  \<^verbatim>\<open>uint64(b[7]) | uint64(b[6])<<8 | ... | uint64(b[0])<<56\<close>.  Every caller in the
  package passes a slice of exactly the width read.
\<close>

definition PutUint32 :: "uint32 \<Rightarrow> byte list" where
  "PutUint32 v = [ucast (drop_bit 24 v), ucast (drop_bit 16 v), ucast (drop_bit 8 v), ucast v]"

definition Uint32 :: "byte list \<Rightarrow> uint32" where
  "Uint32 b = (ucast (b ! 3) OR push_bit 8 (ucast (b ! 2)) OR push_bit 16 (ucast (b ! 1))
     OR push_bit 24 (ucast (b ! 0)))"

definition PutUint64 :: "uint64 \<Rightarrow> byte list" where
  "PutUint64 v = [ucast (drop_bit 56 v), ucast (drop_bit 48 v), ucast (drop_bit 40 v),
     ucast (drop_bit 32 v), ucast (drop_bit 24 v), ucast (drop_bit 16 v), ucast (drop_bit 8 v),
     ucast v]"

definition Uint64 :: "byte list \<Rightarrow> uint64" where
  "Uint64 b = (ucast (b ! 7) OR push_bit 8 (ucast (b ! 6)) OR push_bit 16 (ucast (b ! 5))
     OR push_bit 24 (ucast (b ! 4)) OR push_bit 32 (ucast (b ! 3)) OR push_bit 40 (ucast (b ! 2))
     OR push_bit 48 (ucast (b ! 1)) OR push_bit 56 (ucast (b ! 0)))"

section \<open>The file behind the store, and \<^verbatim>\<open>bufio.Writer\<close>\<close>

text \<open>
  The store file is opened with \<^verbatim>\<open>O_RDWR|O_CREATE|O_APPEND\<close>: every write goes to
  the end of the file.  The file is its contents and a flag \<open>faulty\<close> for a device that
  rejects writes; this is how an I/O error enters the model.  A write is taken whole or
  not at all.
\<close>

record os_file =
  contents :: "byte list"
  faulty :: bool

definition file_Write :: "os_file \<Rightarrow> byte list \<Rightarrow> (error + nat) \<times> os_file" where
  "file_Write f p =
     (if faulty f then (Inl IOError, f)
      else (Inr (length p), f\<lparr>contents := contents f @ p\<rparr>))"

text \<open>
  \<^verbatim>\<open>os.File.ReadAt(b, off)\<close> with \<^verbatim>\<open>len(b) = n\<close>: a negative offset is an error, an
  empty \<^verbatim>\<open>b\<close> reads nothing and succeeds, and a read that meets the end of the file
  before \<^verbatim>\<open>b\<close> is full returns \<^verbatim>\<open>io.EOF\<close>.
\<close>

definition file_ReadAt :: "os_file \<Rightarrow> nat \<Rightarrow> int64 \<Rightarrow> error + byte list" where
  "file_ReadAt f n off =
     (if sint off < 0 then Inl IOError
      else if n = 0 then Inr []
      else if unat off + n \<le> length (contents f) then Inr (take n (drop (unat off) (contents f)))
      else Inl EOF)"

text \<open>
  \<^verbatim>\<open>bufio.NewWriter(f)\<close> has a buffer of 4096 bytes.  The writer is the bytes it holds
  (\<^verbatim>\<open>b.buf[0:b.n]\<close>) and its sticky error \<^verbatim>\<open>b.err\<close>.
\<close>

record bufio_Writer =
  wbuf :: "byte list"
  werr :: "error option"

definition defaultBufSize :: nat where
  "defaultBufSize = 4096"

definition NewWriter :: bufio_Writer where
  "NewWriter = \<lparr>wbuf = [], werr = None\<rparr>"

definition Available :: "bufio_Writer \<Rightarrow> nat" where
  "Available w = defaultBufSize - length (wbuf w)"

text \<open>
  \<^verbatim>\<open>Flush\<close>: returns the sticky error if there is one, does nothing on an empty
  buffer, and otherwise writes the buffer to the file; a failed write keeps the bytes and
  sets the sticky error.
\<close>

definition bufio_Flush :: "bufio_Writer \<Rightarrow> os_file \<Rightarrow> error option \<times> bufio_Writer \<times> os_file" where
  "bufio_Flush w f =
     (case werr w of
        Some e \<Rightarrow> (Some e, w, f)
      | None \<Rightarrow>
          if wbuf w = [] then (None, w, f)
          else (case file_Write f (wbuf w) of
                  (Inl e, f') \<Rightarrow> (Some e, w\<lparr>werr := Some e\<rparr>, f')
                | (Inr n, f') \<Rightarrow> (None, w\<lparr>wbuf := []\<rparr>, f')))"

text \<open>
  The loop of \<^verbatim>\<open>Write\<close>:
  \<^verbatim>\<open>for len(p) > b.Available() && b.err == nil\<close>: with an empty buffer the rest of
  \<^verbatim>\<open>p\<close> is written to the file directly, otherwise the buffer is filled from \<^verbatim>\<open>p\<close>
  and flushed.  The loop carries the writer, the file, what is left of \<^verbatim>\<open>p\<close> and the
  count \<^verbatim>\<open>nn\<close>.
\<close>

function bufio_Write_loop ::
  "bufio_Writer \<Rightarrow> os_file \<Rightarrow> byte list \<Rightarrow> nat \<Rightarrow> bufio_Writer \<times> os_file \<times> byte list \<times> nat" where
  "bufio_Write_loop w f p nn =
     (if length p > Available w \<and> werr w = None then
        (if wbuf w = [] then
           (case file_Write f p of
              (Inl e, f') \<Rightarrow> bufio_Write_loop (w\<lparr>werr := Some e\<rparr>) f' p nn
            | (Inr n, f') \<Rightarrow> bufio_Write_loop w f' (drop n p) (nn + n))
         else
           (let n = min (Available w) (length p);
                w1 = w\<lparr>wbuf := wbuf w @ take n p\<rparr>
            in case bufio_Flush w1 f of
                 (_, w2, f2) \<Rightarrow> bufio_Write_loop w2 f2 (drop n p) (nn + n)))
      else (w, f, p, nn))"
  by pat_completeness auto
termination
  by (relation "measures [\<lambda>(w, f, p, nn). if werr w = None then 1 else 0,
                           \<lambda>(w, f, p, nn). length p,
                           \<lambda>(w, f, p, nn). length (wbuf w)]")
     (auto simp: bufio_Flush_def file_Write_def Available_def defaultBufSize_def
           split: if_splits option.splits)

text \<open>
  \<^verbatim>\<open>Write(p)\<close>: after the loop, a sticky error is returned with the count so far;
  otherwise what is left of \<^verbatim>\<open>p\<close> fits the buffer and is copied into it.
\<close>

definition bufio_Write ::
  "bufio_Writer \<Rightarrow> os_file \<Rightarrow> byte list \<Rightarrow> (nat \<times> error option) \<times> bufio_Writer \<times> os_file" where
  "bufio_Write w f p =
     (case bufio_Write_loop w f p 0 of
        (w', f', p', nn) \<Rightarrow>
          (case werr w' of
             Some e \<Rightarrow> ((nn, Some e), w', f')
           | None \<Rightarrow> ((nn + length p', None), w'\<lparr>wbuf := wbuf w' @ p'\<rparr>, f')))"

section \<open>The store\<close>

text \<open>
  \<^verbatim>\<open>type store struct { *os.File; mu sync.Mutex; buf *bufio.Writer; size uint64 }\<close>.
  The mutex serialises the calls; one call at a time is what the model runs.
\<close>

record store =
  File :: os_file
  buf :: bufio_Writer
  store_size :: uint64

definition lenWidth :: nat where
  "lenWidth = 8"

text \<open>\<^verbatim>\<open>newStore\<close> takes the size of the file from \<^verbatim>\<open>os.Stat\<close>.\<close>

definition newStore :: "os_file \<Rightarrow> error + store" where
  "newStore f = Inr \<lparr>File = f, buf = NewWriter, store_size = of_nat (length (contents f))\<rparr>"

text \<open>
  \<^verbatim>\<open>Append\<close>: \<^verbatim>\<open>binary.Write(s.buf, enc, uint64(len(p)))\<close> is one \<^verbatim>\<open>Write\<close> of the
  eight bytes of the length; then the payload; then \<^verbatim>\<open>w += lenWidth\<close> and
  \<^verbatim>\<open>s.size += uint64(w)\<close>.  An early return leaves \<^verbatim>\<open>size\<close> as it was, and the writer
  and the file as the failed write left them.
\<close>

definition store_Append :: "store \<Rightarrow> byte list \<Rightarrow> (error + uint64 \<times> uint64) \<times> store" where
  "store_Append s p =
     (let pos = store_size s in
      case bufio_Write (buf s) (File s) (PutUint64 (of_nat (length p))) of
        ((_, Some e), b1, f1) \<Rightarrow> (Inl e, s\<lparr>File := f1, buf := b1\<rparr>)
      | ((_, None), b1, f1) \<Rightarrow>
          (case bufio_Write b1 f1 p of
             ((_, Some e), b2, f2) \<Rightarrow> (Inl e, s\<lparr>File := f2, buf := b2\<rparr>)
           | ((w, None), b2, f2) \<Rightarrow>
               (let w' = w + lenWidth in
                (Inr (of_nat w', pos),
                 s\<lparr>File := f2, buf := b2, store_size := store_size s + of_nat w'\<rparr>))))"

text \<open>
  \<^verbatim>\<open>Read\<close>: flush, read the eight bytes of the length at \<^verbatim>\<open>int64(pos)\<close>, make a slice
  of that length (a length beyond the largest \<^verbatim>\<open>int\<close> panics), and fill it from
  \<^verbatim>\<open>int64(pos + lenWidth)\<close>.
\<close>

definition store_Read :: "store \<Rightarrow> uint64 \<Rightarrow> (error + byte list) \<times> store" where
  "store_Read s pos =
     (case bufio_Flush (buf s) (File s) of
        (Some e, b1, f1) \<Rightarrow> (Inl e, s\<lparr>File := f1, buf := b1\<rparr>)
      | (None, b1, f1) \<Rightarrow>
          (let s1 = s\<lparr>File := f1, buf := b1\<rparr> in
           case file_ReadAt f1 lenWidth pos of
             Inl e \<Rightarrow> (Inl e, s1)
           | Inr sz \<Rightarrow>
               if sint (Uint64 sz) < 0 then (Inl Panic, s1)
               else (case file_ReadAt f1 (unat (Uint64 sz)) (pos + of_nat lenWidth) of
                       Inl e \<Rightarrow> (Inl e, s1)
                     | Inr b \<Rightarrow> (Inr b, s1))))"

text \<open>
  What the store holds, in order: the bytes on the file followed by the bytes still in
  the writer.
\<close>

definition store_bytes :: "store \<Rightarrow> byte list" where
  "store_bytes s = contents (File s) @ wbuf (buf s)"

text \<open>
  A store in working order: the device takes writes, the writer has no sticky error and
  holds at most its buffer, and \<^verbatim>\<open>size\<close> is the number of bytes held.
\<close>

definition store_ok :: "store \<Rightarrow> bool" where
  "store_ok s \<longleftrightarrow>
     \<not> faulty (File s) \<and> werr (buf s) = None \<and> length (wbuf (buf s)) \<le> defaultBufSize \<and>
     store_size s = of_nat (length (store_bytes s))"

section \<open>Configuration\<close>

text \<open>\<^verbatim>\<open>type Config struct { Segment struct { MaxStoreBytes, MaxIndexBytes, InitialOffset uint64 } }\<close>\<close>

record Config_Segment =
  MaxStoreBytes :: uint64
  MaxIndexBytes :: uint64
  InitialOffset :: uint64

record Config =
  Segment :: Config_Segment

section \<open>The index\<close>

definition offWidth :: uint64 where
  "offWidth = 4"

definition posWidth :: uint64 where
  "posWidth = 8"

definition entWidth :: uint64 where
  "entWidth = offWidth + posWidth"

text \<open>
  \<^verbatim>\<open>type index struct { file *os.File; mmap gommap.MMap; size uint64; config Config }\<close>.
  The map is shared with the file, so one byte list stands for both; the field
  \<^verbatim>\<open>config\<close> is never assigned and never read, and is left out.
\<close>

record index =
  mmap :: "byte list"
  index_size :: uint64

text \<open>
  A slice expression \<^verbatim>\<open>s[a:b]\<close> of Go panics unless \<^verbatim>\<open>a <= b <= cap(s)\<close>; the
  capacity of the map is its length.  \<open>put\<close> is the write through such a slice.
\<close>

definition slice_ok :: "'a list \<Rightarrow> nat \<Rightarrow> nat \<Rightarrow> bool" where
  "slice_ok xs a b \<longleftrightarrow> a \<le> b \<and> b \<le> length xs"

definition slice :: "'a list \<Rightarrow> nat \<Rightarrow> nat \<Rightarrow> 'a list" where
  "slice xs a b = take (b - a) (drop a xs)"

definition put :: "'a list \<Rightarrow> nat \<Rightarrow> 'a list \<Rightarrow> 'a list" where
  "put xs a bs = take a xs @ bs @ drop (a + length bs) xs"

text \<open>
  \<^verbatim>\<open>newIndex(f, c)\<close>, on the contents \<open>f\<close> of the index file: the size is the size
  of the file; \<^verbatim>\<open>os.Truncate\<close> to \<^verbatim>\<open>int64(c.Segment.MaxIndexBytes)\<close> cuts the file or
  extends it with zero bytes, and fails on a negative length; \<^verbatim>\<open>gommap.Map\<close> maps the
  whole file, and the system call fails on a file of length zero.
\<close>

definition newIndex :: "byte list \<Rightarrow> Config \<Rightarrow> error + index" where
  "newIndex f c =
     (let sz = (of_nat (length f) :: uint64);
          m = MaxIndexBytes (Segment c)
      in if sint m < 0 then Inl IOError
         else if m = 0 then Inl IOError
         else Inr \<lparr>mmap = take (unat m) f @ replicate (unat m - length f) 0, index_size = sz\<rparr>)"

definition index_IsMaxed :: "index \<Rightarrow> bool" where
  "index_IsMaxed i \<longleftrightarrow> (of_nat (length (mmap i)) :: uint64) < index_size i + entWidth"

text \<open>
  \<^verbatim>\<open>Read(off int64)\<close>: \<^verbatim>\<open>out\<close> is a \<^verbatim>\<open>uint32\<close>, so both \<^verbatim>\<open>uint32(size/entWidth - 1)\<close>
  and \<^verbatim>\<open>uint32(off)\<close> keep the low 32 bits.
\<close>

definition index_Read :: "index \<Rightarrow> int64 \<Rightarrow> error + uint32 \<times> uint64" where
  "index_Read i off =
     (if index_size i = 0 then Inl EOF
      else
        let out = (if off = - 1 then ucast (index_size i div entWidth - 1) else ucast off) :: uint32;
            startingPos = (ucast out :: uint64) * entWidth
        in if index_size i < startingPos + entWidth then Inl EOF
           else if \<not> slice_ok (mmap i) (unat startingPos) (unat (startingPos + offWidth))
             then Inl Panic
           else if \<not> slice_ok (mmap i) (unat (startingPos + offWidth)) (unat (startingPos + entWidth))
             then Inl Panic
           else Inr (Uint32 (slice (mmap i) (unat startingPos) (unat (startingPos + offWidth))),
                     Uint64 (slice (mmap i) (unat (startingPos + offWidth))
                               (unat (startingPos + entWidth)))))"

text \<open>
  \<^verbatim>\<open>Write(off uint32, pos uint64) error\<close> changes the index in place; the model returns
  the error, if any, and the index after the call.
\<close>

definition index_Write :: "index \<Rightarrow> uint32 \<Rightarrow> uint64 \<Rightarrow> error option \<times> index" where
  "index_Write i off pos =
     (if index_IsMaxed i then (Some EOF, i)
      else
        let sz = index_size i in
        if \<not> slice_ok (mmap i) (unat sz) (unat (sz + offWidth)) then (Some Panic, i)
        else
          let m1 = put (mmap i) (unat sz) (PutUint32 off) in
          if \<not> slice_ok m1 (unat (sz + offWidth)) (unat (sz + entWidth))
            then (Some Panic, i\<lparr>mmap := m1\<rparr>)
          else
            (None, i\<lparr>mmap := put m1 (unat (sz + offWidth)) (PutUint64 pos),
                     index_size := sz + entWidth\<rparr>))"

text \<open>
  \<^verbatim>\<open>Close\<close> syncs, then truncates the file to \<^verbatim>\<open>int64(i.size)\<close>: what is left on
  disk is returned.
\<close>

definition index_Close :: "index \<Rightarrow> error + byte list" where
  "index_Close i =
     (if sint (index_size i) < 0 then Inl IOError
      else Inr (take (unat (index_size i)) (mmap i)
                @ replicate (unat (index_size i) - length (mmap i)) 0))"

section \<open>Records and their codec\<close>

text \<open>\<^verbatim>\<open>message Record { bytes value = 1; uint64 offset = 2; }\<close>\<close>

record Record =
  Value :: "byte list"
  Offset :: uint64

text \<open>
  \<^verbatim>\<open>proto.Marshal\<close> and \<^verbatim>\<open>proto.Unmarshal\<close> belong to a library outside the
  repository: the segment takes them as parameters, and its theorems hold for every codec.
\<close>

type_synonym marshal = "Record \<Rightarrow> error + byte list"
type_synonym unmarshal = "byte list \<Rightarrow> error + Record"

text \<open>
  For concrete runs, the wire format of protocol buffers for this message: a field is a
  tag byte (\<open>0x0A\<close> for \<^verbatim>\<open>value\<close>, \<open>0x10\<close> for \<^verbatim>\<open>offset\<close>) followed by a base-128
  varint, the length of the bytes or the number itself; a proto3 field with the zero value
  is not written.  The decoder takes the fields in any order, the last occurrence
  winning; it rejects every other tag, where the library would keep an unknown field
  aside.
\<close>

function varint :: "uint64 \<Rightarrow> byte list" where
  "varint v = (if v < 128 then [ucast v] else (ucast (v AND 127) OR 128) # varint (drop_bit 7 v))"
  by pat_completeness auto
termination
proof (relation "measure unat", goal_cases)
  case 1
  show ?case by simp
next
  case (2 v)
  then have "128 \<le> unat v" by (simp add: word_less_nat_alt not_less)
  moreover have "unat (drop_bit 7 v) = unat v div 128"
    by (simp add: unat_drop_bit_eq drop_bit_eq_div unat_div)
  ultimately show ?case by simp
qed

definition proto_Marshal :: marshal where
  "proto_Marshal r =
     Inr ((if Value r = [] then [] else 10 # varint (of_nat (length (Value r))) @ Value r)
          @ (if Offset r = 0 then [] else 16 # varint (Offset r)))"

text \<open>
  \<^verbatim>\<open>protowire.ConsumeVarint\<close> reads at most ten bytes, the tenth of which may only be 0
  or 1.
\<close>

fun consumeVarint_at :: "nat \<Rightarrow> byte list \<Rightarrow> (uint64 \<times> byte list) option" where
  "consumeVarint_at i [] = None"
| "consumeVarint_at i (b # bs) =
     (if i = 9 then (if b < 2 then Some (ucast b, bs) else None)
      else if b < 128 then Some (ucast b, bs)
      else (case consumeVarint_at (Suc i) bs of
              None \<Rightarrow> None
            | Some (v, rest) \<Rightarrow> Some (ucast (b AND 127) OR push_bit 7 v, rest)))"

definition consumeVarint :: "byte list \<Rightarrow> (uint64 \<times> byte list) option" where
  "consumeVarint bs = consumeVarint_at 0 bs"

function unmarshal_fields :: "byte list \<Rightarrow> Record \<Rightarrow> error + Record" where
  "unmarshal_fields bs r =
     (if bs = [] then Inr r
      else if hd bs = 10 then
        (case consumeVarint (tl bs) of
           None \<Rightarrow> Inl CodecError
         | Some (n, rest) \<Rightarrow>
             if length rest < unat n then Inl CodecError
             else unmarshal_fields (drop (unat n) rest) (r\<lparr>Value := take (unat n) rest\<rparr>))
      else if hd bs = 16 then
        (case consumeVarint (tl bs) of
           None \<Rightarrow> Inl CodecError
         | Some (v, rest) \<Rightarrow> unmarshal_fields rest (r\<lparr>Offset := v\<rparr>))
      else Inl CodecError)"
  by pat_completeness auto
termination
proof (relation "measure (\<lambda>(bs, r). length bs)", goal_cases)
  case 1
  show ?case by simp
next
  have shorter: "consumeVarint_at i xs = Some (v, rest) \<Longrightarrow> length rest < length xs"
    for i xs v rest
    by (induction xs arbitrary: i v rest) (force split: if_splits option.splits)+
  {
    case (2 bs r x2 n rest)
    then show ?case using shorter [of 0 "tl bs" n rest] by (cases bs) (auto simp: consumeVarint_def)
  next
    case (3 bs r x2 v rest)
    then show ?case using shorter [of 0 "tl bs" v rest] by (cases bs) (auto simp: consumeVarint_def)
  }
qed

definition proto_Unmarshal :: unmarshal where
  "proto_Unmarshal p = unmarshal_fields p \<lparr>Value = [], Offset = 0\<rparr>"

section \<open>The segment\<close>

text \<open>
  \<^verbatim>\<open>type segment struct { store *store; index *index; baseOffset, nextOffset uint64;
  config Config }\<close>
\<close>

record segment =
  store :: store
  index :: index
  baseOffset :: uint64
  nextOffset :: uint64
  config :: Config

text \<open>
  \<^verbatim>\<open>newSegment(dir, baseOffset, c)\<close> opens the two files named after \<^verbatim>\<open>baseOffset\<close> in
  \<^verbatim>\<open>dir\<close>, creating them empty when they do not exist: the model takes the store file
  and the contents of the index file as the directory has them.  An error of
  \<^verbatim>\<open>s.index.Read(-1)\<close> means \<^verbatim>\<open>nextOffset = baseOffset\<close>; a panic in it is no error
  value and ends the call.
\<close>

definition newSegment :: "os_file \<Rightarrow> byte list \<Rightarrow> uint64 \<Rightarrow> Config \<Rightarrow> error + segment" where
  "newSegment storeFile indexFile base c =
     (case newStore storeFile of
        Inl e \<Rightarrow> Inl e
      | Inr st \<Rightarrow>
          (case newIndex indexFile c of
             Inl e \<Rightarrow> Inl e
           | Inr idx \<Rightarrow>
               (case index_Read idx (- 1) of
                  Inl Panic \<Rightarrow> Inl Panic
                | Inl _ \<Rightarrow>
                    Inr \<lparr>store = st, index = idx, baseOffset = base, nextOffset = base,
                         config = c\<rparr>
                | Inr (off, _) \<Rightarrow>
                    Inr \<lparr>store = st, index = idx, baseOffset = base,
                         nextOffset = base + ucast off + 1, config = c\<rparr>)))"

text \<open>
  \<^verbatim>\<open>Append(record *api.Record)\<close> writes \<^verbatim>\<open>record.Offset\<close> through the pointer and
  changes the segment in place: the model returns the result, the record as the caller
  sees it afterwards, and the segment after the call.
\<close>

definition segment_Append ::
  "marshal \<Rightarrow> segment \<Rightarrow> Record \<Rightarrow> (error + uint64) \<times> Record \<times> segment" where
  "segment_Append marshal s record =
     (let cur = nextOffset s;
          record' = record\<lparr>Offset := cur\<rparr>
      in case marshal record' of
           Inl e \<Rightarrow> (Inl e, record', s)
         | Inr p \<Rightarrow>
             (case store_Append (store s) p of
                (Inl e, st) \<Rightarrow> (Inl e, record', s\<lparr>store := st\<rparr>)
              | (Inr (_, pos), st) \<Rightarrow>
                  (case index_Write (index s) (ucast (nextOffset s - baseOffset s)) pos of
                     (Some e, idx) \<Rightarrow> (Inl e, record', s\<lparr>store := st, index := idx\<rparr>)
                   | (None, idx) \<Rightarrow>
                       (Inr cur, record',
                        s\<lparr>store := st, index := idx, nextOffset := nextOffset s + 1\<rparr>))))"

text \<open>
  \<^verbatim>\<open>Read(off uint64)\<close> looks up \<^verbatim>\<open>int64(off - s.baseOffset)\<close> in the index; the read
  of the store flushes its writer, so the segment after the call is returned too.
\<close>

definition segment_Read :: "unmarshal \<Rightarrow> segment \<Rightarrow> uint64 \<Rightarrow> (error + Record) \<times> segment" where
  "segment_Read unmarshal s off =
     (case index_Read (index s) (off - baseOffset s) of
        Inl e \<Rightarrow> (Inl e, s)
      | Inr (_, pos) \<Rightarrow>
          (case store_Read (store s) pos of
             (Inl e, st) \<Rightarrow> (Inl e, s\<lparr>store := st\<rparr>)
           | (Inr p, st) \<Rightarrow>
               (case unmarshal p of
                  Inl e \<Rightarrow> (Inl e, s\<lparr>store := st\<rparr>)
                | Inr record \<Rightarrow> (Inr record, s\<lparr>store := st\<rparr>))))"

definition segment_IsMaxed :: "segment \<Rightarrow> bool" where
  "segment_IsMaxed s \<longleftrightarrow>
     MaxStoreBytes (Segment (config s)) \<le> store_size (store s) \<or>
     MaxIndexBytes (Segment (config s)) < index_size (index s) + entWidth"

section \<open>Runs and what the files hold\<close>

text \<open>
  The frames of a store file, as the file format has them: an eight-byte big-endian
  length \<open>L\<close> followed by \<open>L\<close> bytes of payload, one frame after the other up to the end
  of the data.  \<open>None\<close> when the bytes are no sequence of whole frames.
\<close>

function frames :: "byte list \<Rightarrow> byte list list option" where
  "frames bs =
     (if bs = [] then Some []
      else if length bs < 8 then None
      else if length bs - 8 < unat (Uint64 (take 8 bs)) then None
      else map_option ((#) (take (unat (Uint64 (take 8 bs))) (drop 8 bs)))
             (frames (drop (unat (Uint64 (take 8 bs))) (drop 8 bs))))"
  by pat_completeness auto
termination
  by (relation "measure length") auto

text \<open>The entry of the index file at a slot, and the number of whole entries.\<close>

definition entry_at :: "byte list \<Rightarrow> nat \<Rightarrow> uint32 \<times> uint64" where
  "entry_at m k = (Uint32 (slice m (12 * k) (12 * k + 4)), Uint64 (slice m (12 * k + 4) (12 * k + 12)))"

definition index_count :: "index \<Rightarrow> nat" where
  "index_count i = unat (index_size i) div 12"


datatype index_op = OpWrite uint32 uint64 | OpRead int64

fun index_run :: "index \<Rightarrow> index_op list \<Rightarrow> index" where
  "index_run i [] = i"
| "index_run i (OpWrite off pos # ops) = index_run (snd (index_Write i off pos)) ops"
| "index_run i (OpRead off # ops) = index_run i ops"

text \<open>A run of appends and reads on a store.\<close>

datatype store_op = SAppend "byte list" | SRead uint64

fun store_run :: "store \<Rightarrow> store_op list \<Rightarrow> store" where
  "store_run s [] = s"
| "store_run s (SAppend p # ops) = store_run (snd (store_Append s p)) ops"
| "store_run s (SRead pos # ops) = store_run (snd (store_Read s pos)) ops"

text \<open>
  A run of appends on a segment: the results in order, failed or not, and the segment
  after the last of them.
\<close>

fun appends :: "marshal \<Rightarrow> segment \<Rightarrow> Record list \<Rightarrow> (error + uint64) list \<times> segment" where
  "appends marshal s [] = ([], s)"
| "appends marshal s (r # rs) =
     (case segment_Append marshal s r of
        (res, _, s') \<Rightarrow>
          (case appends marshal s' rs of (ress, s'') \<Rightarrow> (res # ress, s'')))"


text \<open>
  File sizes and lengths are \<^verbatim>\<open>int64\<close> values: an index whose map and whose size are
  both below \<open>2 ^ 63\<close>, as \<^verbatim>\<open>newIndex\<close> makes it and \<^verbatim>\<open>Write\<close> keeps it.
\<close>

definition index_wf :: "index \<Rightarrow> bool" where
  "index_wf i \<longleftrightarrow> length (mmap i) < 2 ^ 63 \<and> unat (index_size i) < 2 ^ 63"

text \<open>The twelve bytes of an entry.\<close>

definition entry_bytes :: "uint32 \<times> uint64 \<Rightarrow> byte list" where
  "entry_bytes e = PutUint32 (fst e) @ PutUint64 (snd e)"

text \<open>Shorthand for the concrete inputs of the examples.\<close>

abbreviation config_of :: "uint64 \<Rightarrow> uint64 \<Rightarrow> Config" where
  "config_of ms mi \<equiv> \<lparr>Segment = \<lparr>MaxStoreBytes = ms, MaxIndexBytes = mi, InitialOffset = 0\<rparr>\<rparr>"

abbreviation empty_index :: "nat \<Rightarrow> index" where
  "empty_index m \<equiv> \<lparr>mmap = replicate m 0, index_size = 0\<rparr>"

text \<open>The offsets that a run of appends returned, in order.\<close>

fun returned :: "(error + 'a) list \<Rightarrow> 'a list" where
  "returned [] = []"
| "returned (Inl e # ress) = returned ress"
| "returned (Inr x # ress) = x # returned ress"



abbreviation empty_file :: os_file where
  "empty_file \<equiv> \<lparr>contents = [], faulty = False\<rparr>"

abbreviation fresh_segment :: "uint64 \<Rightarrow> nat \<Rightarrow> segment" where
  "fresh_segment base m \<equiv>
     \<lparr>store = \<lparr>File = empty_file, buf = NewWriter, store_size = 0\<rparr>, index = empty_index m,
      baseOffset = base, nextOffset = base, config = config_of 1024 (of_nat m)\<rparr>"

abbreviation rec_x :: Record where "rec_x \<equiv> \<lparr>Value = [120], Offset = 0\<rparr>"
abbreviation rec_y :: Record where "rec_y \<equiv> \<lparr>Value = [121], Offset = 0\<rparr>"
abbreviation rec_z :: Record where "rec_z \<equiv> \<lparr>Value = [122], Offset = 0\<rparr>"

text \<open>A codec that refuses a record without a value, for a failure of the first stage.\<close>

abbreviation picky_Marshal :: marshal where
  "picky_Marshal \<equiv> (\<lambda>r. if Value r = [] then Inl CodecError else proto_Marshal r)"

text \<open>
  A store that holds one frame; the two files of a closed segment with base offset 5 and
  one record, and the segment that \<^verbatim>\<open>newSegment\<close> makes of them with room for three
  entries; an index file of two entries; an index file of \<open>2 ^ 32 + 1\<close> entries, the last
  of them with relative offset 5.
\<close>

abbreviation store_with_x :: store where
  "store_with_x \<equiv> \<lparr>File = \<lparr>contents = [0,0,0,0,0,0,0,3, 10,1,120], faulty = False\<rparr>,
                     buf = NewWriter, store_size = 11\<rparr>"





abbreviation huge_index_file :: "byte list" where
  "huge_index_file \<equiv> replicate 51539607552 0 @ [0,0,0,5, 0,0,0,0,0,0,0,0]"


section \<open>Big-endian round trip\<close>

lemma bit_byte_part:
  fixes v :: "'a::len word"
  shows "bit (push_bit k (ucast (ucast (drop_bit k v) :: byte) :: 'a word)) n
         \<longleftrightarrow> k \<le> n \<and> n < k + 8 \<and> bit v n"
  by (auto simp add: bit_simps dest: bit_imp_le_length)

lemma bit_byte_low:
  fixes v :: "'a::len word"
  shows "bit (ucast (ucast v :: byte) :: 'a word) n \<longleftrightarrow> n < 8 \<and> bit v n"
  by (auto simp add: bit_simps dest: bit_imp_le_length)

lemma Uint32_PutUint32 [simp]: "Uint32 (PutUint32 v) = v"
proof (rule bit_word_eqI)
  fix n assume "n < LENGTH(32)"
  then have n: "n < 32" by simp
  have "bit (Uint32 (PutUint32 v)) n \<longleftrightarrow>
     (n < 8 \<or> (8 \<le> n \<and> n < 16) \<or> (16 \<le> n \<and> n < 24) \<or> (24 \<le> n \<and> n < 32)) \<and> bit v n"
    unfolding Uint32_def PutUint32_def
    by (simp add: bit_or_iff bit_byte_part bit_byte_low) blast
  also have "\<dots> \<longleftrightarrow> bit v n" using n by arith
  finally show "bit (Uint32 (PutUint32 v)) n = bit v n" .
qed

lemma Uint64_PutUint64 [simp]: "Uint64 (PutUint64 v) = v"
proof (rule bit_word_eqI)
  fix n assume "n < LENGTH(64)"
  then have n: "n < 64" by simp
  have "bit (Uint64 (PutUint64 v)) n \<longleftrightarrow>
     (n < 8 \<or> (8 \<le> n \<and> n < 16) \<or> (16 \<le> n \<and> n < 24) \<or> (24 \<le> n \<and> n < 32)
      \<or> (32 \<le> n \<and> n < 40) \<or> (40 \<le> n \<and> n < 48) \<or> (48 \<le> n \<and> n < 56)
      \<or> (56 \<le> n \<and> n < 64)) \<and> bit v n"
    unfolding Uint64_def PutUint64_def
    by (simp add: bit_or_iff bit_byte_part bit_byte_low) blast
  also have "\<dots> \<longleftrightarrow> bit v n" using n by arith
  finally show "bit (Uint64 (PutUint64 v)) n = bit v n" .
qed

lemma length_PutUint32 [simp]: "length (PutUint32 v) = 4"
  by (simp add: PutUint32_def)

lemma length_PutUint64 [simp]: "length (PutUint64 v) = 8"
  by (simp add: PutUint64_def)

section \<open>The store: appending and reading back\<close>

declare bufio_Write_loop.simps [simp del]

lemma unat_of_nat64: "n < 2 ^ 64 \<Longrightarrow> unat (of_nat n :: uint64) = n"
  by (simp add: unat_of_nat)

lemma sint_of_nat64: "n < 2 ^ 63 \<Longrightarrow> sint (of_nat n :: uint64) = int n"
proof -
  assume n: "n < 2 ^ 63"
  have "sint (of_nat n :: uint64) = signed_take_bit 63 (int n)"
    by (simp add: signed_of_nat)
  also have "\<dots> = int n"
    using n by (intro signed_take_bit_int_eq_self) auto
  finally show ?thesis .
qed

lemma loop_stop:
  "\<not> (length p > Available w \<and> werr w = None) \<Longrightarrow> bufio_Write_loop w f p nn = (w, f, p, nn)"
  by (subst bufio_Write_loop.simps) auto

lemma loop_direct:
  "length p > Available w \<Longrightarrow> werr w = None \<Longrightarrow> wbuf w = [] \<Longrightarrow> \<not> faulty f \<Longrightarrow>
   bufio_Write_loop w f p nn = bufio_Write_loop w (f\<lparr>contents := contents f @ p\<rparr>) [] (nn + length p)"
  by (subst bufio_Write_loop.simps) (simp add: file_Write_def)

lemma loop_fill:
  "length p > Available w \<Longrightarrow> werr w = None \<Longrightarrow> wbuf w \<noteq> [] \<Longrightarrow> \<not> faulty f \<Longrightarrow>
   bufio_Write_loop w f p nn =
   bufio_Write_loop (w\<lparr>wbuf := []\<rparr>) (f\<lparr>contents := contents f @ wbuf w @ take (Available w) p\<rparr>)
      (drop (Available w) p) (nn + Available w)"
  by (subst bufio_Write_loop.simps) (simp add: file_Write_def bufio_Flush_def Let_def min_def)

lemma bufio_Write_loop_ok:
  assumes "\<not> faulty f" "werr w = None" "length (wbuf w) \<le> defaultBufSize"
  shows "\<exists>w' f' p'. bufio_Write_loop w f p nn = (w', f', p', nn + length p - length p') \<and>
         \<not> faulty f' \<and> werr w' = None \<and> length (wbuf w') + length p' \<le> defaultBufSize \<and>
         length p' \<le> length p \<and>
         contents f' @ wbuf w' @ p' = contents f @ wbuf w @ p"
proof (cases "length p > Available w")
  case False
  then show ?thesis using assms by (simp add: loop_stop Available_def)
next
  case big: True
  show ?thesis
  proof (cases "wbuf w = []")
    case True
    then show ?thesis using assms big
      by (simp add: loop_direct loop_stop)
  next
    case False
    let ?w = "w\<lparr>wbuf := []\<rparr>"
    let ?f = "f\<lparr>contents := contents f @ wbuf w @ take (Available w) p\<rparr>"
    let ?p = "drop (Available w) p"
    have step: "bufio_Write_loop w f p nn = bufio_Write_loop ?w ?f ?p (nn + Available w)"
      using False assms big by (simp add: loop_fill)
    show ?thesis
    proof (cases "length ?p > Available ?w")
      case True
      then show ?thesis using assms big step
        by (simp add: loop_direct loop_stop)
    next
      case False
      then show ?thesis using assms big step
        by (simp add: loop_stop Available_def)
    qed
  qed
qed

lemma bufio_Write_ok:
  assumes "\<not> faulty f" "werr w = None" "length (wbuf w) \<le> defaultBufSize"
  shows "\<exists>w' f'. bufio_Write w f p = ((length p, None), w', f') \<and>
         \<not> faulty f' \<and> werr w' = None \<and> length (wbuf w') \<le> defaultBufSize \<and>
         contents f' @ wbuf w' = contents f @ wbuf w @ p"
proof -
  from bufio_Write_loop_ok [OF assms, of p 0]
  obtain w' f' p' where l: "bufio_Write_loop w f p 0 = (w', f', p', 0 + length p - length p')"
    and ok: "\<not> faulty f'" "werr w' = None" "length (wbuf w') + length p' \<le> defaultBufSize"
      "length p' \<le> length p" "contents f' @ wbuf w' @ p' = contents f @ wbuf w @ p"
    by blast
  show ?thesis
    using l ok by (simp add: bufio_Write_def)
qed

lemma bufio_Flush_ok:
  assumes "\<not> faulty f" "werr w = None"
  shows "bufio_Flush w f = (None, w\<lparr>wbuf := []\<rparr>, f\<lparr>contents := contents f @ wbuf w\<rparr>)"
  using assms by (simp add: bufio_Flush_def file_Write_def)

lemma store_Append_ok:
  assumes "store_ok s"
  shows "\<exists>s'. store_Append s p = (Inr (of_nat (length p + 8), store_size s), s') \<and>
           store_ok s' \<and> store_size s' = store_size s + of_nat (length p + 8) \<and>
           store_bytes s' = store_bytes s @ PutUint64 (of_nat (length p)) @ p"
proof -
  from assms have a: "\<not> faulty (File s)" "werr (buf s) = None"
      "length (wbuf (buf s)) \<le> defaultBufSize"
      "store_size s = of_nat (length (store_bytes s))"
    by (simp_all add: store_ok_def)
  from bufio_Write_ok [OF a(1,2,3), of "PutUint64 (of_nat (length p))"]
  obtain b1 f1 where
    w1: "bufio_Write (buf s) (File s) (PutUint64 (of_nat (length p))) = ((8, None), b1, f1)"
    and ok1: "\<not> faulty f1" "werr b1 = None" "length (wbuf b1) \<le> defaultBufSize"
    and c1: "contents f1 @ wbuf b1 = contents (File s) @ wbuf (buf s) @ PutUint64 (of_nat (length p))"
    by auto
  from bufio_Write_ok [OF ok1, of p]
  obtain b2 f2 where
    w2: "bufio_Write b1 f1 p = ((length p, None), b2, f2)"
    and ok2: "\<not> faulty f2" "werr b2 = None" "length (wbuf b2) \<le> defaultBufSize"
    and c2: "contents f2 @ wbuf b2 = contents f1 @ wbuf b1 @ p"
    by auto
  have bytes: "contents f2 @ wbuf b2 = store_bytes s @ PutUint64 (of_nat (length p)) @ p"
    using c1 c2 by (simp add: store_bytes_def)
  have len: "length (contents f2) + length (wbuf b2) = length (store_bytes s) + (length p + 8)"
    using arg_cong [OF bytes, of length] by simp
  have sz: "store_size s + of_nat (length p + 8) = of_nat (length (contents f2) + length (wbuf b2))"
    unfolding len a(4) by simp
  have ap: "store_Append s p = (Inr (of_nat (length p + 8), store_size s),
       s\<lparr>File := f2, buf := b2, store_size := store_size s + of_nat (length p + 8)\<rparr>)"
    using w1 w2 by (simp add: store_Append_def lenWidth_def Let_def)
  show ?thesis
    unfolding ap using ok2 bytes sz
    by (simp add: store_ok_def store_bytes_def)
qed

lemma store_Read_frame:
  assumes ok: "store_ok s"
    and bytes: "store_bytes s = pre @ PutUint64 (of_nat (length b)) @ b @ post"
    and bound: "length pre + 8 + length b < 2 ^ 63"
  shows "\<exists>s'. store_Read s (of_nat (length pre)) = (Inr b, s') \<and> store_ok s' \<and>
           store_bytes s' = store_bytes s \<and> store_size s' = store_size s"
proof -
  from ok have a: "\<not> faulty (File s)" "werr (buf s) = None"
      "length (wbuf (buf s)) \<le> defaultBufSize"
      "store_size s = of_nat (length (store_bytes s))"
    by (simp_all add: store_ok_def)
  let ?f = "(File s)\<lparr>contents := contents (File s) @ wbuf (buf s)\<rparr>"
  let ?b = "(buf s)\<lparr>wbuf := []\<rparr>"
  have fl: "bufio_Flush (buf s) (File s) = (None, ?b, ?f)"
    using a by (simp add: bufio_Flush_ok)
  have cf: "contents ?f = pre @ PutUint64 (of_nat (length b)) @ b @ post"
    using bytes by (simp add: store_bytes_def)
  have u1: "unat (of_nat (length pre) :: uint64) = length pre"
    using bound by (intro unat_of_nat64) simp
  have s1: "sint (of_nat (length pre) :: uint64) = int (length pre)"
    using bound by (intro sint_of_nat64) simp
  have u2: "unat (of_nat (length pre) + 8 :: uint64) = length pre + 8"
    using bound unat_of_nat64 [of "length pre + 8"] by simp
  have s2: "sint (of_nat (length pre) + 8 :: uint64) = int (length pre + 8)"
    using bound sint_of_nat64 [of "length pre + 8"] by simp
  have ub: "unat (of_nat (length b) :: uint64) = length b"
    using bound by (intro unat_of_nat64) simp
  have r1: "file_ReadAt ?f lenWidth (of_nat (length pre)) = Inr (PutUint64 (of_nat (length b)))"
    unfolding file_ReadAt_def cf using u1 s1 by (simp add: lenWidth_def)
  have r2: "file_ReadAt ?f (length b) (of_nat (length pre) + 8) = Inr b"
    unfolding file_ReadAt_def cf using u2 s2 by simp
  have nb: "\<not> sint (of_nat (length b) :: uint64) < 0"
    using bound sint_of_nat64 [of "length b"] by simp
  show ?thesis
    using fl r1 r2 ub nb a
    by (simp add: store_Read_def Let_def lenWidth_def store_ok_def store_bytes_def)
qed


lemma newStore_ok: "\<not> faulty f \<Longrightarrow> \<exists>s. newStore f = Inr s \<and> store_ok s \<and> store_bytes s = contents f"
  by (simp add: newStore_def store_ok_def store_bytes_def NewWriter_def defaultBufSize_def)

lemma store_Read_keeps:
  assumes ok: "store_ok s"
  shows "store_ok (snd (store_Read s pos)) \<and> store_bytes (snd (store_Read s pos)) = store_bytes s"
proof -
  from ok have a: "\<not> faulty (File s)" "werr (buf s) = None"
      "length (wbuf (buf s)) \<le> defaultBufSize"
      "store_size s = of_nat (length (store_bytes s))"
    by (simp_all add: store_ok_def)
  let ?f = "(File s)\<lparr>contents := contents (File s) @ wbuf (buf s)\<rparr>"
  let ?b = "(buf s)\<lparr>wbuf := []\<rparr>"
  have fl: "bufio_Flush (buf s) (File s) = (None, ?b, ?f)"
    using a by (simp add: bufio_Flush_ok)
  have "snd (store_Read s pos) = s\<lparr>File := ?f, buf := ?b\<rparr>"
    unfolding store_Read_def fl by (simp add: Let_def split: sum.splits)
  then show ?thesis using a by (simp add: store_ok_def store_bytes_def)
qed

lemma store_run_keeps:
  "store_ok s \<Longrightarrow> store_ok (store_run s ops) \<and> (\<exists>rest. store_bytes (store_run s ops) = store_bytes s @ rest)"
proof (induction ops arbitrary: s)
  case Nil
  then show ?case by simp
next
  case (Cons op ops)
  show ?case
  proof (cases op)
    case (SAppend p)
    from store_Append_ok [OF Cons.prems, of p] obtain s' where
      s': "store_Append s p = (Inr (of_nat (length p + 8), store_size s), s')" "store_ok s'"
        "store_bytes s' = store_bytes s @ PutUint64 (of_nat (length p)) @ p"
      by auto
    from Cons.IH [OF s'(2)] s'(1,3) show ?thesis using SAppend by auto
  next
    case (SRead pos)
    from store_Read_keeps [OF Cons.prems, of pos] Cons.IH [of "snd (store_Read s pos)"]
    show ?thesis using SRead by auto
  qed
qed

text \<open>
  C1.  On a store in working order, \<open>Append b\<close> returns \<open>(n, pos)\<close> with
  \<open>n = 8 + length b\<close> and \<open>pos\<close> the size of the store before the call, which is the
  number of bytes it holds, and the size grows by \<open>n\<close>; and after any further run of
  appends and reads, as long as the file stays below the largest file offset
  (\<open>2 ^ 63\<close>), \<open>Read pos\<close> returns \<open>b\<close>.
\<close>

theorem store_append_read_roundtrip:
  assumes "store_ok s" and "s2 = store_run (snd (store_Append s b)) ops"
    and "length (store_bytes s2) < 2 ^ 63"
  shows "fst (store_Append s b) = Inr (of_nat (8 + length b), store_size s)
       \<and> unat (of_nat (8 + length b) :: uint64) = 8 + length b
       \<and> unat (store_size s) = length (store_bytes s)
       \<and> store_size (snd (store_Append s b)) = store_size s + of_nat (8 + length b)
       \<and> fst (store_Read s2 (store_size s)) = Inr b"
proof -
  from store_Append_ok [OF assms(1), of b]
  obtain s' where ap: "store_Append s b = (Inr (of_nat (length b + 8), store_size s), s')"
    and ok': "store_ok s'" and sz: "store_size s' = store_size s + of_nat (length b + 8)"
    and by': "store_bytes s' = store_bytes s @ PutUint64 (of_nat (length b)) @ b"
    by auto
  from store_run_keeps [OF ok', of ops] ap assms(2)
  obtain rest where ok2: "store_ok s2" and b2: "store_bytes s2 = store_bytes s' @ rest"
    by auto
  have fr: "store_bytes s2 = store_bytes s @ PutUint64 (of_nat (length b)) @ b @ rest"
    unfolding b2 by' by simp
  have bound: "length (store_bytes s) + 8 + length b < 2 ^ 63"
    using assms(3) unfolding fr by simp
  have size: "store_size s = of_nat (length (store_bytes s))"
    using assms(1) by (simp add: store_ok_def)
  from store_Read_frame [OF ok2 fr bound]
  have rd: "fst (store_Read s2 (store_size s)) = Inr b"
    using size by auto
  have u: "unat (of_nat (8 + length b) :: uint64) = 8 + length b"
    using bound by (intro unat_of_nat64) simp
  have us: "unat (store_size s) = length (store_bytes s)"
    unfolding size using bound by (intro unat_of_nat64) simp
  show ?thesis using ap rd u us sz by (simp add: add.commute)
qed


theorem store_append_read_roundtrip_witness:
  "store_ok store_with_x
   \<and> fst (store_Append store_with_x [104, 105]) = Inr (10, 11)
   \<and> store_bytes (store_run (snd (store_Append store_with_x [104, 105])) [SRead 0, SAppend [106]])
       = [0,0,0,0,0,0,0,3,10,1,120, 0,0,0,0,0,0,0,2,104,105, 0,0,0,0,0,0,0,1,106]
   \<and> fst (store_Read (store_run (snd (store_Append store_with_x [104, 105])) [SRead 0, SAppend [106]])
            11) = Inr [104, 105]"
proof -
  have ok: "store_ok store_with_x"
    by (simp add: store_ok_def store_bytes_def NewWriter_def defaultBufSize_def)
  define s2 where "s2 = store_run (snd (store_Append store_with_x [104, 105])) [SRead 0, SAppend [106]]"
  have by2: "store_bytes s2
       = [0,0,0,0,0,0,0,3,10,1,120, 0,0,0,0,0,0,0,2,104,105, 0,0,0,0,0,0,0,1,106]"
    unfolding s2_def by code_simp
  then have bound: "length (store_bytes s2) < 2 ^ 63" by simp
  note t = store_append_read_roundtrip [OF ok s2_def bound]
  from t have a: "fst (store_Append store_with_x [104, 105]) = Inr (10, 11)" by simp
  from t have r: "fst (store_Read s2 11) = Inr [104, 105]" by simp
  show ?thesis using ok a by2 r unfolding s2_def by blast
qed


section \<open>The index: writing and reading entries\<close>

lemma widths [simp]: "offWidth = 4" "posWidth = 8" "entWidth = 12"
  by (simp_all add: offWidth_def posWidth_def entWidth_def)

lemma nonneg_sint_unat:
  fixes w :: uint64
  assumes "\<not> sint w < 0"
  shows "unat w < 2 ^ 63"
proof -
  from assms have nb: "\<not> bit w 63"
    using bit_last_iff [of w] by simp
  have "take_bit 63 w = w"
  proof (rule bit_word_eqI)
    fix n assume "n < LENGTH(64)"
    then show "bit (take_bit 63 w) n = bit w n"
      using nb by (cases "n = 63") (auto simp: bit_take_bit_iff)
  qed
  then have "unat w = take_bit 63 (unat w)"
    by (metis unsigned_take_bit_eq)
  then show ?thesis
    by (metis take_bit_nat_less_exp)
qed

lemma unat_size_plus:
  fixes sz :: uint64
  assumes "unat sz < 2 ^ 63" and "n < 2 ^ 63"
  shows "unat (sz + of_nat n) = unat sz + n"
proof -
  have n: "unat (of_nat n :: uint64) = n" using assms(2) by (simp add: unat_of_nat)
  have "unat sz + unat (of_nat n :: uint64) < 2 ^ LENGTH(64)" using assms n by simp
  then have "unat (sz + of_nat n) = unat sz + unat (of_nat n :: uint64)"
    by (simp only: unat_add_lem)
  then show ?thesis using n by simp
qed

lemma unat_plus4: "unat (sz :: uint64) < 2 ^ 63 \<Longrightarrow> unat (sz + 4) = unat sz + 4"
  using unat_size_plus [of sz 4] by simp

lemma unat_plus12: "unat (sz :: uint64) < 2 ^ 63 \<Longrightarrow> unat (sz + 12) = unat sz + 12"
  using unat_size_plus [of sz 12] by simp

lemma index_IsMaxed_iff:
  assumes "index_wf i"
  shows "index_IsMaxed i \<longleftrightarrow> length (mmap i) < unat (index_size i) + 12"
proof -
  from assms have l: "length (mmap i) < 2 ^ 63" and s: "unat (index_size i) < 2 ^ 63"
    by (simp_all add: index_wf_def)
  have "unat (of_nat (length (mmap i)) :: uint64) = length (mmap i)"
    using l by (intro unat_of_nat64) simp
  then show ?thesis
    using unat_plus12 [OF s] by (simp add: index_IsMaxed_def word_less_nat_alt)
qed

lemma put_put:
  assumes "a + 12 \<le> length m" "length x = 4" "length y = 8"
  shows "put (put m a x) (a + 4) y = take a m @ x @ y @ drop (a + 12) m"
  using assms by (simp add: put_def add.commute)

lemma index_Write_room:
  assumes wf: "index_wf i" and room: "unat (index_size i) + 12 \<le> length (mmap i)"
  shows "index_Write i off pos =
     (None, \<lparr>mmap = take (unat (index_size i)) (mmap i) @ PutUint32 off @ PutUint64 pos
                      @ drop (unat (index_size i) + 12) (mmap i),
             index_size = index_size i + 12\<rparr>)"
proof -
  from wf have s: "unat (index_size i) < 2 ^ 63" by (simp add: index_wf_def)
  have nm: "\<not> index_IsMaxed i" using room by (simp add: index_IsMaxed_iff [OF wf])
  have ok1: "slice_ok (mmap i) (unat (index_size i)) (unat (index_size i + 4))"
    using room by (simp add: slice_ok_def unat_plus4 [OF s])
  have len1: "length (put (mmap i) (unat (index_size i)) (PutUint32 off)) = length (mmap i)"
    using room by (simp add: put_def)
  have ok2: "slice_ok (put (mmap i) (unat (index_size i)) (PutUint32 off))
               (unat (index_size i + 4)) (unat (index_size i + 12))"
    using room by (simp add: slice_ok_def unat_plus4 [OF s] unat_plus12 [OF s] len1)
  show ?thesis
    using nm ok1 ok2 put_put [OF room, of "PutUint32 off" "PutUint64 pos"]
    by (simp add: index_Write_def Let_def unat_plus4 [OF s])
qed

lemma index_Write_full:
  assumes wf: "index_wf i" and full: "length (mmap i) < unat (index_size i) + 12"
  shows "index_Write i off pos = (Some EOF, i)"
  using full by (simp add: index_Write_def index_IsMaxed_iff [OF wf])

lemma index_Write_cases:
  assumes wf: "index_wf i"
  shows "index_Write i off pos =
     (if unat (index_size i) + 12 \<le> length (mmap i)
      then (None, \<lparr>mmap = take (unat (index_size i)) (mmap i) @ PutUint32 off @ PutUint64 pos
                      @ drop (unat (index_size i) + 12) (mmap i),
             index_size = index_size i + 12\<rparr>)
      else (Some EOF, i))"
  using index_Write_room [OF wf] index_Write_full [OF wf] by auto

lemma index_Write_wf:
  assumes wf: "index_wf i"
  shows "index_wf (snd (index_Write i off pos)) \<and>
         length (mmap (snd (index_Write i off pos))) = length (mmap i)"
proof -
  from wf have s: "unat (index_size i) < 2 ^ 63" and l: "length (mmap i) < 2 ^ 63"
    by (simp_all add: index_wf_def)
  show ?thesis
    unfolding index_Write_cases [OF wf]
    using wf l by (auto simp: index_wf_def unat_plus12 [OF s])
qed

lemma index_run_wf:
  "index_wf i \<Longrightarrow> index_wf (index_run i ops) \<and> length (mmap (index_run i ops)) = length (mmap i)"
proof (induction ops arbitrary: i)
  case Nil
  then show ?case by simp
next
  case (Cons op ops)
  show ?case
  proof (cases op)
    case (OpWrite off pos)
    from index_Write_wf [OF Cons.prems, of off pos] Cons.IH [of "snd (index_Write i off pos)"]
    show ?thesis using OpWrite by simp
  next
    case (OpRead off)
    then show ?thesis using Cons by simp
  qed
qed

lemma newIndex_wf:
  assumes "length f < 2 ^ 63" and "newIndex f c = Inr i"
  shows "index_wf i \<and> length (mmap i) = unat (MaxIndexBytes (Segment c))
         \<and> index_size i = of_nat (length f)
         \<and> mmap i = take (unat (MaxIndexBytes (Segment c))) f
                     @ replicate (unat (MaxIndexBytes (Segment c)) - length f) 0"
proof -
  let ?m = "MaxIndexBytes (Segment c)"
  from assms(2) have ns: "\<not> sint ?m < 0"
    by (auto simp: newIndex_def Let_def split: if_splits)
  from assms(2) have i: "i = \<lparr>mmap = take (unat ?m) f @ replicate (unat ?m - length f) 0,
                               index_size = of_nat (length f)\<rparr>"
    by (auto simp: newIndex_def Let_def split: if_splits)
  have m: "unat ?m < 2 ^ 63" using ns by (rule nonneg_sint_unat)
  have u: "unat (of_nat (length f) :: uint64) = length f"
    using assms(1) by (intro unat_of_nat64) simp
  show ?thesis
    using m u assms(1) by (auto simp: i index_wf_def)
qed


lemma unat_ucast_32_64: "unat (ucast (out :: uint32) :: uint64) = unat out"
proof -
  have "unat out < 2 ^ 32" using unsigned_less [of out] by simp
  then have "unat out < 2 ^ 64" by simp
  then show ?thesis
    by (simp add: unsigned_ucast_eq take_bit_nat_eq_self)
qed

lemma unat_slot_pos:
  fixes out :: uint32
  shows "unat ((ucast out :: uint64) * 12) = 12 * unat out"
proof -
  have "unat out < 2 ^ 32" using unsigned_less [of out] by simp
  then have "unat (ucast out :: uint64) * unat (12 :: uint64) < 2 ^ LENGTH(64)"
    by (simp add: unat_ucast_32_64)
  then have "unat ((ucast out :: uint64) * 12) = unat (ucast out :: uint64) * unat (12 :: uint64)"
    by (simp only: unat_mult_lem)
  then show ?thesis by (simp add: unat_ucast_32_64)
qed

lemma slot_pos_small:
  fixes out :: uint32
  shows "unat ((ucast out :: uint64) * 12) < 2 ^ 63"
proof -
  have "unat out < 2 ^ 32" using unsigned_less [of out] by simp
  then show ?thesis by (simp add: unat_slot_pos)
qed

lemma index_Read_slot:
  assumes "index_size i \<noteq> 0"
    and "k = unat ((if off = - 1 then ucast (index_size i div entWidth - 1) else ucast off) :: uint32)"
  shows "index_Read i off =
     (if unat (index_size i) < 12 * k + 12 then Inl EOF
      else if length (mmap i) < 12 * k + 12 then Inl Panic
      else Inr (entry_at (mmap i) k))"
proof -
  define out :: uint32 where
    "out = (if off = - 1 then ucast (index_size i div entWidth - 1) else ucast off)"
  define sp :: uint64 where "sp = ucast out * 12"
  have k: "k = unat out" using assms(2) by (simp add: out_def)
  have sp: "unat sp = 12 * k" by (simp add: sp_def k unat_slot_pos)
  have sp4: "unat (sp + 4) = 12 * k + 4"
    using unat_plus4 [of sp] slot_pos_small [of out] sp by (simp add: sp_def)
  have sp12: "unat (sp + 12) = 12 * k + 12"
    using unat_plus12 [of sp] slot_pos_small [of out] sp by (simp add: sp_def)
  have "index_Read i off =
     (if index_size i < sp + 12 then Inl EOF
      else if \<not> slice_ok (mmap i) (unat sp) (unat (sp + 4)) then Inl Panic
      else if \<not> slice_ok (mmap i) (unat (sp + 4)) (unat (sp + 12)) then Inl Panic
      else Inr (Uint32 (slice (mmap i) (unat sp) (unat (sp + 4))),
                Uint64 (slice (mmap i) (unat (sp + 4)) (unat (sp + 12)))))"
    using assms(1) unfolding index_Read_def sp_def out_def by (simp add: Let_def)
  then show ?thesis
    unfolding sp sp4 sp12 word_less_nat_alt
    by (auto simp: slice_ok_def entry_at_def)
qed





lemma length_entry_bytes [simp]: "length (entry_bytes e) = 12"
  by (simp add: entry_bytes_def)





lemma index_run_inv:
  assumes "index_wf i" "12 dvd unat (index_size i)" "unat (index_size i) \<le> length (mmap i)"
  shows "12 dvd unat (index_size (index_run i ops)) \<and>
         unat (index_size (index_run i ops)) \<le> length (mmap (index_run i ops))"
  using assms
proof (induction ops arbitrary: i)
  case Nil
  then show ?case by simp
next
  case (Cons op ops)
  show ?case
  proof (cases op)
    case (OpRead off)
    then show ?thesis using Cons by simp
  next
    case (OpWrite off pos)
    let ?i1 = "snd (index_Write i off pos)"
    from Cons.prems(1) have s63: "unat (index_size i) < 2 ^ 63" by (simp add: index_wf_def)
    have wf1: "index_wf ?i1" using index_Write_wf [OF Cons.prems(1)] by simp
    have d1: "12 dvd unat (index_size ?i1)"
      unfolding index_Write_cases [OF Cons.prems(1)]
      using Cons.prems(2) by (simp add: unat_plus12 [OF s63])
    have r1: "unat (index_size ?i1) \<le> length (mmap ?i1)"
      unfolding index_Write_cases [OF Cons.prems(1)]
      using Cons.prems(3) by (simp add: unat_plus12 [OF s63])
    from Cons.IH [OF wf1 d1 r1] show ?thesis using OpWrite by simp
  qed
qed

lemma index_Write_EOF_unchanged:
  "fst (index_Write i off pos) = Some EOF \<Longrightarrow> snd (index_Write i off pos) = i"
  by (auto simp: index_Write_def Let_def split: if_splits)















text \<open>
  C4.  For an index made by \<^verbatim>\<open>newIndex\<close> with a given \<open>MaxIndexBytes\<close> (on a file
  whose size is an \<^verbatim>\<open>int64\<close>) and after any writes and reads: a write at logical size
  exactly \<open>MaxIndexBytes - 12\<close> succeeds; a write when \<open>size + 12\<close> exceeds
  \<open>MaxIndexBytes\<close> returns \<^verbatim>\<open>io.EOF\<close> and changes nothing; and a write that succeeds
  stores the big-endian \<^verbatim>\<open>uint32\<close> offset and \<^verbatim>\<open>uint64\<close> position at the logical size,
  leaves the rest of the map alone and advances the size by 12.
\<close>

theorem index_write_capacity:
  assumes "length f < 2 ^ 63" and "newIndex f c = Inr i0" and "i = index_run i0 ops"
  shows "(unat (index_size i) + 12 = unat (MaxIndexBytes (Segment c))
            \<longrightarrow> fst (index_Write i off pos) = None)
       \<and> (unat (MaxIndexBytes (Segment c)) < unat (index_size i) + 12
            \<longrightarrow> index_Write i off pos = (Some EOF, i))
       \<and> (fst (index_Write i off pos) = None \<longrightarrow>
            index_size (snd (index_Write i off pos)) = index_size i + 12
          \<and> length (mmap (snd (index_Write i off pos))) = length (mmap i)
          \<and> slice (mmap (snd (index_Write i off pos)))
               (unat (index_size i)) (unat (index_size i) + 4) = PutUint32 off
          \<and> slice (mmap (snd (index_Write i off pos)))
               (unat (index_size i) + 4) (unat (index_size i) + 12) = PutUint64 pos
          \<and> take (unat (index_size i)) (mmap (snd (index_Write i off pos)))
               = take (unat (index_size i)) (mmap i)
          \<and> drop (unat (index_size i) + 12) (mmap (snd (index_Write i off pos)))
               = drop (unat (index_size i) + 12) (mmap i))"
proof -
  from newIndex_wf [OF assms(1,2)]
  have wf0: "index_wf i0" and l0: "length (mmap i0) = unat (MaxIndexBytes (Segment c))"
    by simp_all
  from index_run_wf [OF wf0, of ops]
  have wf: "index_wf i" and l: "length (mmap i) = unat (MaxIndexBytes (Segment c))"
    using l0 by (simp_all add: assms(3))
  note wc = index_Write_cases [OF wf, of off pos]
  have a: "fst (index_Write i off pos) = None"
    if "unat (index_size i) + 12 = unat (MaxIndexBytes (Segment c))"
    using that l by (simp add: wc)
  have b: "index_Write i off pos = (Some EOF, i)"
    if "unat (MaxIndexBytes (Segment c)) < unat (index_size i) + 12"
    using that l by (simp add: wc)
  have c: "index_size (snd (index_Write i off pos)) = index_size i + 12
          \<and> length (mmap (snd (index_Write i off pos))) = length (mmap i)
          \<and> slice (mmap (snd (index_Write i off pos)))
               (unat (index_size i)) (unat (index_size i) + 4) = PutUint32 off
          \<and> slice (mmap (snd (index_Write i off pos)))
               (unat (index_size i) + 4) (unat (index_size i) + 12) = PutUint64 pos
          \<and> take (unat (index_size i)) (mmap (snd (index_Write i off pos)))
               = take (unat (index_size i)) (mmap i)
          \<and> drop (unat (index_size i) + 12) (mmap (snd (index_Write i off pos)))
               = drop (unat (index_size i) + 12) (mmap i)"
    if "fst (index_Write i off pos) = None"
  proof -
    from that have room: "unat (index_size i) + 12 \<le> length (mmap i)"
      by (simp add: wc split: if_splits)
    then have lt: "length (take (unat (index_size i)) (mmap i)) = unat (index_size i)"
      by simp
    show ?thesis
      unfolding index_Write_room [OF wf room] using room
      by (simp add: slice_def)
  qed
  show ?thesis using a b c by blast
qed

theorem index_write_capacity_witness:
  "newIndex [] (config_of 1024 24) = Inr (empty_index 24)
   \<and> unat (index_size (index_run (empty_index 24) [OpWrite 0 100])) + 12 = 24
   \<and> fst (index_Write (index_run (empty_index 24) [OpWrite 0 100]) 1 200) = None
   \<and> mmap (snd (index_Write (index_run (empty_index 24) [OpWrite 0 100]) 1 200))
        = [0,0,0,0, 0,0,0,0,0,0,0,100, 0,0,0,1, 0,0,0,0,0,0,0,200]
   \<and> index_Write (index_run (empty_index 24) [OpWrite 0 100, OpWrite 1 200]) 2 300
        = (Some EOF, index_run (empty_index 24) [OpWrite 0 100, OpWrite 1 200])"
proof -
  have n: "newIndex [] (config_of 1024 24) = Inr (empty_index 24)"
    by (simp add: newIndex_def Let_def)
  have l: "length ([] :: byte list) < 2 ^ 63" by simp
  define i1 where "i1 = index_run (empty_index 24) [OpWrite 0 100]"
  define i2 where "i2 = index_run (empty_index 24) [OpWrite 0 100, OpWrite 1 200]"
  have r1: "i1 = \<lparr>mmap = [0,0,0,0, 0,0,0,0,0,0,0,100, 0,0,0,0, 0,0,0,0,0,0,0,0], index_size = 12\<rparr>"
    unfolding i1_def by code_simp
  have r2: "i2 = \<lparr>mmap = [0,0,0,0, 0,0,0,0,0,0,0,100, 0,0,0,1, 0,0,0,0,0,0,0,200], index_size = 24\<rparr>"
    unfolding i2_def by code_simp
  have s1: "unat (index_size i1) + 12 = 24" by (simp add: r1)
  have s2: "unat (MaxIndexBytes (Segment (config_of 1024 24))) < unat (index_size i2) + 12"
    by (simp add: r2)
  have m: "unat (MaxIndexBytes (Segment (config_of 1024 24))) = 24" by simp
  from index_write_capacity [OF l n i2_def, of 2 300] s2
  have full: "index_Write i2 2 300 = (Some EOF, i2)"
    by blast
  from index_write_capacity [OF l n i1_def, of 1 200] s1 m
  have ok: "fst (index_Write i1 1 200) = None"
    by presburger
  have w: "mmap (snd (index_Write i1 1 200))
        = [0,0,0,0, 0,0,0,0,0,0,0,100, 0,0,0,1, 0,0,0,0,0,0,0,200]"
    unfolding r1 by code_simp
  show ?thesis
    using n s1 ok w full unfolding i1_def i2_def by blast
qed







text \<open>
  C9.  \<open>Read\<close> keeps the low 32 bits of the slot: for every index and every
  non-negative slot \<open>s\<close>, \<open>Read s\<close> is \<open>Read (s mod 2 ^ 32)\<close>; and on an index with at
  least one entry inside its map, \<open>Read (2 ^ 32)\<close> is \<open>Read 0\<close> and returns the
  entry at slot 0, not \<^verbatim>\<open>io.EOF\<close>.
\<close>

theorem index_Read_truncates_slot:
  "(0 \<le> sint off \<longrightarrow> index_Read i off = index_Read i (word_of_int (sint off mod 2 ^ 32)))
   \<and> (12 \<le> unat (index_size i) \<and> 12 \<le> length (mmap i) \<longrightarrow>
        index_Read i (2 ^ 32) = index_Read i 0
      \<and> index_Read i (2 ^ 32) = Inr (entry_at (mmap i) 0))"
proof -
  have a: "index_Read i off = index_Read i (word_of_int (sint off mod 2 ^ 32))"
    if nn: "0 \<le> sint off"
  proof -
    define off' :: int64 where "off' = word_of_int (sint off mod 2 ^ 32)"
    have "sint off mod 2 ^ 32 = take_bit 32 (sint off)"
      by (simp add: take_bit_eq_mod)
    then have t: "off' = take_bit 32 off"
      unfolding off'_def by (simp only:) (rule bit_word_eqI, auto simp: bit_simps)
    have n1: "off \<noteq> - 1" using nn by auto
    have "unat off' = take_bit 32 (unat off)"
      unfolding t by (simp add: unsigned_take_bit_eq)
    then have "unat off' < 2 ^ 32"
      using take_bit_nat_less_exp [of 32 "unat off"] by simp
    moreover have "unat (- 1 :: int64) = 2 ^ 64 - 1"
      by (simp add: unsigned_minus_1_eq_mask mask_eq_exp_minus_1)
    ultimately have n2: "off' \<noteq> - 1" by auto
    have u: "(ucast off' :: uint32) = ucast off"
      unfolding t by (rule bit_word_eqI) (auto simp: bit_simps)
    show ?thesis
      unfolding off'_def [symmetric] index_Read_def using n1 n2 u by simp
  qed
  have b: "index_Read i (2 ^ 32) = index_Read i 0 \<and> index_Read i (2 ^ 32) = Inr (entry_at (mmap i) 0)"
    if "12 \<le> unat (index_size i)" "12 \<le> length (mmap i)"
  proof -
    from that(1) have nz: "index_size i \<noteq> 0" by auto
    have k1: "0 = unat ((if (2 ^ 32 :: int64) = - 1 then ucast (index_size i div entWidth - 1)
                          else ucast (2 ^ 32 :: int64)) :: uint32)"
      by simp
    have k2: "0 = unat ((if (0 :: int64) = - 1 then ucast (index_size i div entWidth - 1)
                          else ucast (0 :: int64)) :: uint32)"
      by simp
    show ?thesis
      using index_Read_slot [OF nz k1] index_Read_slot [OF nz k2] that by simp
  qed
  show ?thesis using a b by blast
qed

theorem index_Read_truncates_slot_witness:
  "0 \<le> sint (4294967301 :: int64)
   \<and> index_Read \<lparr>mmap = [0,0,0,0, 0,0,0,0,0,0,0,100], index_size = 12\<rparr> 4294967301
       = index_Read \<lparr>mmap = [0,0,0,0, 0,0,0,0,0,0,0,100], index_size = 12\<rparr> 5
   \<and> index_Read \<lparr>mmap = [0,0,0,0, 0,0,0,0,0,0,0,100], index_size = 12\<rparr> 4294967296 = Inr (0, 100)"
proof -
  let ?i = "\<lparr>mmap = [0,0,0,0, 0,0,0,0,0,0,0,100], index_size = 12\<rparr>"
  have e: "entry_at (mmap ?i) 0 = (0, 100)"
    by (simp add: entry_at_def slice_def Uint32_def Uint64_def)
  have h: "0 \<le> sint (4294967301 :: int64)" by simp
  have m: "word_of_int (sint (4294967301 :: int64) mod 2 ^ 32) = (5 :: int64)" by simp
  have s: "12 \<le> unat (index_size ?i) \<and> 12 \<le> length (mmap ?i)" by simp
  note t = index_Read_truncates_slot [of 4294967301 ?i]
  from t h have a: "index_Read ?i 4294967301 = index_Read ?i (word_of_int (sint (4294967301 :: int64) mod 2 ^ 32))"
    by blast
  from t s have b: "index_Read ?i (2 ^ 32) = Inr (entry_at (mmap ?i) 0)"
    by blast
  have p: "(2 ^ 32 :: int64) = 4294967296" by simp
  show ?thesis
    using h a b unfolding m e p by blast
qed


text \<open>
  C10, as stated, would have \<open>size + 12\<close> never exceed the mapped length.  With
  \<open>MaxIndexBytes = 12\<close>, one write fills the index: the size is 12 and \<open>size + 12\<close>
  is 24.
\<close>

theorem index_size_plus_entry_counterexample:
  "newIndex [] (config_of 1024 12) = Inr (empty_index 12)
   \<and> \<not> (unat (index_size (index_run (empty_index 12) [OpWrite 0 100])) + 12
          \<le> length (mmap (index_run (empty_index 12) [OpWrite 0 100])))"
proof -
  have n: "newIndex [] (config_of 1024 12) = Inr (empty_index 12)"
    by (simp add: newIndex_def Let_def)
  define i where "i = index_run (empty_index 12) [OpWrite 0 100]"
  have r: "i = \<lparr>mmap = [0,0,0,0, 0,0,0,0,0,0,0,100], index_size = 12\<rparr>"
    unfolding i_def by code_simp
  have "\<not> (unat (index_size i) + 12 \<le> length (mmap i))" by (simp add: r)
  then show ?thesis using n unfolding i_def by blast
qed


text \<open>
  C10, amended.  For an index made by \<^verbatim>\<open>newIndex\<close> on an empty file, after every
  sequence of writes and reads: the logical size is a multiple of 12 and never exceeds
  the mapped length, which is \<open>MaxIndexBytes\<close>, so every entry recorded lies within the
  map; and a write that returns \<^verbatim>\<open>io.EOF\<close> leaves the size and the map as they were.
\<close>

theorem index_size_wellformed:
  assumes "newIndex [] c = Inr i0" and "i = index_run i0 ops"
  shows "12 dvd unat (index_size i)
       \<and> unat (index_size i) \<le> length (mmap i)
       \<and> length (mmap i) = unat (MaxIndexBytes (Segment c))
       \<and> (\<forall>k < index_count i. 12 * k + 12 \<le> length (mmap i))
       \<and> (\<forall>off pos. fst (index_Write i off pos) = Some EOF \<longrightarrow> snd (index_Write i off pos) = i)"
proof -
  from newIndex_wf [OF _ assms(1)]
  have wf0: "index_wf i0" and l0: "length (mmap i0) = unat (MaxIndexBytes (Segment c))"
    and s0: "index_size i0 = 0"
    by simp_all
  from index_run_inv [OF wf0, of ops] s0
  have d: "12 dvd unat (index_size i)" and r: "unat (index_size i) \<le> length (mmap i)"
    by (simp_all add: assms(2))
  have l: "length (mmap i) = unat (MaxIndexBytes (Segment c))"
    using index_run_wf [OF wf0, of ops] l0 by (simp add: assms(2))
  have e: "12 * k + 12 \<le> length (mmap i)" if "k < index_count i" for k
  proof -
    from that have "Suc k \<le> unat (index_size i) div 12" by (simp add: index_count_def)
    then have "12 * Suc k \<le> unat (index_size i)" using d by auto
    then show ?thesis using r by simp
  qed
  show ?thesis
    using d r l e index_Write_EOF_unchanged by blast
qed

theorem index_size_wellformed_witness:
  "newIndex [] (config_of 1024 24) = Inr (empty_index 24)
   \<and> index_size (index_run (empty_index 24) [OpWrite 0 100, OpRead 0, OpWrite 1 200, OpWrite 2 300]) = 24
   \<and> 12 dvd unat (index_size (index_run (empty_index 24)
                      [OpWrite 0 100, OpRead 0, OpWrite 1 200, OpWrite 2 300]))
   \<and> length (mmap (index_run (empty_index 24) [OpWrite 0 100, OpRead 0, OpWrite 1 200, OpWrite 2 300])) = 24
   \<and> fst (index_Write (index_run (empty_index 24)
             [OpWrite 0 100, OpRead 0, OpWrite 1 200, OpWrite 2 300]) 3 400) = Some EOF
   \<and> snd (index_Write (index_run (empty_index 24)
             [OpWrite 0 100, OpRead 0, OpWrite 1 200, OpWrite 2 300]) 3 400)
       = index_run (empty_index 24) [OpWrite 0 100, OpRead 0, OpWrite 1 200, OpWrite 2 300]"
proof -
  have n: "newIndex [] (config_of 1024 24) = Inr (empty_index 24)"
    by (simp add: newIndex_def Let_def)
  define i where "i = index_run (empty_index 24) [OpWrite 0 100, OpRead 0, OpWrite 1 200, OpWrite 2 300]"
  have r: "i = \<lparr>mmap = [0,0,0,0, 0,0,0,0,0,0,0,100, 0,0,0,1, 0,0,0,0,0,0,0,200], index_size = 24\<rparr>"
    unfolding i_def by code_simp
  have f: "fst (index_Write i 3 400) = Some EOF"
    unfolding r by code_simp
  have sz: "index_size i = 24" by (simp add: r)
  note t = index_size_wellformed [OF n i_def]
  from t have d: "12 dvd unat (index_size i)" by blast
  from t have l: "length (mmap i) = 24" by simp
  from t f have u: "snd (index_Write i 3 400) = i" by blast
  show ?thesis
    using n sz d l f u unfolding i_def by blast
qed



section \<open>The segment: appending, reopening and reading\<close>

lemma segment_Append_result:
  assumes "segment_Append marshal s r = (res, r', s')"
  shows "r' = r\<lparr>Offset := nextOffset s\<rparr> \<and> baseOffset s' = baseOffset s \<and> config s' = config s
       \<and> (case res of
             Inr off \<Rightarrow> off = nextOffset s \<and> nextOffset s' = nextOffset s + 1
           | Inl e \<Rightarrow> nextOffset s' = nextOffset s)"
  using assms
  by (auto simp: segment_Append_def Let_def split: sum.splits prod.splits option.splits)





lemma appends_offsets:
  assumes "appends marshal s rs = (ress, s')"
  shows "nextOffset s' = nextOffset s + of_nat (length (returned ress))
       \<and> returned ress = map (\<lambda>k. nextOffset s + of_nat k) [0..<length (returned ress)]"
  using assms
proof (induction rs arbitrary: s ress)
  case Nil
  then show ?case by auto
next
  case (Cons r rs)
  obtain res r' s1 where ap: "segment_Append marshal s r = (res, r', s1)"
    by (cases "segment_Append marshal s r") auto
  obtain ress1 s2 where aps: "appends marshal s1 rs = (ress1, s2)"
    by (cases "appends marshal s1 rs") auto
  from Cons.prems(1) ap aps have e: "ress = res # ress1" "s' = s2" by simp_all
  note ih = Cons.IH [OF aps [folded e(2)]]
  note r = segment_Append_result [OF ap]
  show ?case
  proof (cases res)
    case (Inl err)
    then show ?thesis using ih r e by simp
  next
    case (Inr off)
    let ?n = "length (returned ress1)"
    have off: "off = nextOffset s" and n1: "nextOffset s1 = nextOffset s + 1"
      using r Inr by simp_all
    have "map (\<lambda>k. nextOffset s1 + of_nat k) [0..<?n]
        = map (\<lambda>k. nextOffset s + of_nat k) (map Suc [0..<?n])"
      by (simp add: n1)
    also have "map Suc [0..<?n] = [Suc 0..<Suc ?n]"
      by (simp add: map_Suc_upt)
    finally have m: "map (\<lambda>k. nextOffset s1 + of_nat k) [0..<?n]
        = map (\<lambda>k. nextOffset s + of_nat k) [Suc 0..<Suc ?n]" .
    have "[0..<Suc ?n] = 0 # [Suc 0..<Suc ?n]"
      by (simp add: upt_rec)
    then have "map (\<lambda>k. nextOffset s + of_nat k) [0..<Suc ?n]
       = nextOffset s # map (\<lambda>k. nextOffset s + of_nat k) [Suc 0..<Suc ?n]"
      by simp
    then show ?thesis using ih r e Inr off n1 m by simp
  qed
qed

lemma consecutive_increasing:
  fixes a :: uint64
  assumes "unat a + n \<le> 2 ^ 64"
  shows "sorted_wrt (<) (map (\<lambda>k. a + of_nat k) [0..<n])"
proof -
  have u: "unat (a + of_nat k) = unat a + k" if "k < n" for k
  proof -
    have k: "unat (of_nat k :: uint64) = k"
      using that assms by (intro unat_of_nat64) simp
    have "unat a + unat (of_nat k :: uint64) < 2 ^ LENGTH(64)"
      using that assms k by simp
    then have "unat (a + of_nat k) = unat a + unat (of_nat k :: uint64)"
      by (simp only: unat_add_lem)
    then show ?thesis using k by simp
  qed
  have "sorted_wrt (\<lambda>x y. a + of_nat x < a + of_nat y) [0..<n]"
  proof (rule sorted_wrt_mono_rel [where P = "(<)"])
    fix x y assume "x \<in> set [0..<n]" "y \<in> set [0..<n]" "x < y"
    then show "a + of_nat x < a + of_nat y"
      using u [of x] u [of y] by (simp add: word_less_nat_alt)
  next
    show "sorted_wrt (<) [0..<n]" by (rule sorted_wrt_upt)
  qed
  then show ?thesis by (simp add: sorted_wrt_map)
qed

declare frames.simps [simp del]

lemma frames_Nil [simp]: "frames [] = Some []"
  by (subst frames.simps) simp







lemma newSegment_fresh_24:
  "newSegment empty_file [] base (config_of 1024 24) = Inr (fresh_segment base 24)"
  by (simp add: newSegment_def newStore_def newIndex_def index_Read_def Let_def)









text \<open>
  C2, as stated, would have every sequence of successful appends return increasing
  offsets.  \<^verbatim>\<open>s.nextOffset++\<close> wraps: on a segment whose base offset is the largest
  \<^verbatim>\<open>uint64\<close>, two appends return \<open>2 ^ 64 - 1\<close> and then \<open>0\<close>.
\<close>

theorem append_offsets_wrap_counterexample:
  "newSegment empty_file [] 18446744073709551615 (config_of 1024 24)
     = Inr (fresh_segment 18446744073709551615 24)
   \<and> fst (appends proto_Marshal (fresh_segment 18446744073709551615 24) [rec_x, rec_y])
     = [Inr 18446744073709551615, Inr 0]
   \<and> \<not> sorted_wrt (<) [18446744073709551615, 0 :: uint64]"
proof -
  have a: "fst (appends proto_Marshal (fresh_segment 18446744073709551615 24) [rec_x, rec_y])
     = [Inr 18446744073709551615, Inr 0]"
    by code_simp
  show ?thesis using newSegment_fresh_24 [of 18446744073709551615] a by simp
qed


text \<open>
  C2, amended.  A successful \<open>Append\<close> stamps the record with the segment's
  \<open>nextOffset\<close>, returns that value and adds one to \<open>nextOffset\<close>; in every run of
  appends, failed ones between them or not, the offsets returned are consecutive modulo
  \<open>2 ^ 64\<close> from the first \<open>nextOffset\<close>, which ends advanced by their number; and they
  increase as long as they do not pass \<open>2 ^ 64 - 1\<close>.
\<close>

theorem append_consecutive_offsets:
  assumes "appends marshal s rs = (ress, s')"
  shows "(\<forall>r off r' s1. segment_Append marshal s r = (Inr off, r', s1)
            \<longrightarrow> off = nextOffset s \<and> Offset r' = nextOffset s \<and> nextOffset s1 = nextOffset s + 1)
       \<and> returned ress = map (\<lambda>k. nextOffset s + of_nat k) [0..<length (returned ress)]
       \<and> nextOffset s' = nextOffset s + of_nat (length (returned ress))
       \<and> (unat (nextOffset s) + length (returned ress) \<le> 2 ^ 64 \<longrightarrow> sorted_wrt (<) (returned ress))"
proof -
  have a: "off = nextOffset s \<and> Offset r' = nextOffset s \<and> nextOffset s1 = nextOffset s + 1"
    if "segment_Append marshal s r = (Inr off, r', s1)" for r off r' s1
    using segment_Append_result [OF that] by simp
  note b = appends_offsets [OF assms]
  have c: "sorted_wrt (<) (returned ress)"
    if "unat (nextOffset s) + length (returned ress) \<le> 2 ^ 64"
    using consecutive_increasing [OF that] b by simp
  show ?thesis using a b c by blast
qed

theorem append_consecutive_offsets_witness:
  "fst (appends proto_Marshal (fresh_segment 5 24) [rec_x, rec_y, rec_z]) = [Inr 5, Inr 6, Inl EOF]
   \<and> returned (fst (appends proto_Marshal (fresh_segment 5 24) [rec_x, rec_y, rec_z])) = [5, 6]
   \<and> sorted_wrt (<) (returned (fst (appends proto_Marshal (fresh_segment 5 24) [rec_x, rec_y, rec_z])))
   \<and> nextOffset (snd (appends proto_Marshal (fresh_segment 5 24) [rec_x, rec_y, rec_z])) = 7
   \<and> fst (segment_Append proto_Marshal (fresh_segment 5 24) rec_x) = Inr 5
   \<and> Offset (fst (snd (segment_Append proto_Marshal (fresh_segment 5 24) rec_x))) = 5
   \<and> nextOffset (snd (snd (segment_Append proto_Marshal (fresh_segment 5 24) rec_x))) = 6"
proof -
  define ress where "ress = fst (appends proto_Marshal (fresh_segment 5 24) [rec_x, rec_y, rec_z])"
  define s' where "s' = snd (appends proto_Marshal (fresh_segment 5 24) [rec_x, rec_y, rec_z])"
  have ap: "appends proto_Marshal (fresh_segment 5 24) [rec_x, rec_y, rec_z] = (ress, s')"
    by (simp add: ress_def s'_def)
  have r: "ress = [Inr 5, Inr 6, Inl EOF]"
    unfolding ress_def by code_simp
  then have rt: "returned ress = [5, 6]" by simp
  define r1 where "r1 = fst (snd (segment_Append proto_Marshal (fresh_segment 5 24) rec_x))"
  define s1 where "s1 = snd (snd (segment_Append proto_Marshal (fresh_segment 5 24) rec_x))"
  have o1: "fst (segment_Append proto_Marshal (fresh_segment 5 24) rec_x) = Inr 5"
    by code_simp
  then have a1: "segment_Append proto_Marshal (fresh_segment 5 24) rec_x = (Inr 5, r1, s1)"
    unfolding r1_def s1_def by (metis prod.collapse)
  note t = append_consecutive_offsets [OF ap]
  have n: "nextOffset (fresh_segment 5 24) = 5" by simp
  have b: "unat (nextOffset (fresh_segment 5 24)) + length (returned ress) \<le> 2 ^ 64"
    unfolding rt by simp
  from t b have srt: "sorted_wrt (<) (returned ress)" by blast
  from t have "nextOffset s' = nextOffset (fresh_segment 5 24) + of_nat (length (returned ress))"
    by blast
  then have nx: "nextOffset s' = 7" unfolding rt by simp
  from t a1 have "Offset r1 = nextOffset (fresh_segment 5 24)
      \<and> nextOffset s1 = nextOffset (fresh_segment 5 24) + 1"
    by blast
  then have st: "Offset r1 = 5" "nextOffset s1 = 6" by simp_all
  show ?thesis
    using r rt srt nx o1 st unfolding ress_def s'_def r1_def s1_def by blast
qed







text \<open>
  C6, as stated, would have \<^verbatim>\<open>newSegment\<close> take the relative offset of the last index
  entry, whatever the index file.  \<open>Read (-1)\<close> cuts the slot \<open>size / 12 - 1\<close> to 32
  bits: on an index file of \<open>2 ^ 32 + 1\<close> entries, the last with relative offset 5 and
  the others with 0, \<^verbatim>\<open>newSegment\<close> with base offset 7 reads entry 0 and sets
  \<open>nextOffset\<close> to 8, not to 13.
\<close>

theorem newSegment_last_entry_counterexample:
  "length huge_index_file div 12 = 4294967297
   \<and> fst (entry_at huge_index_file (length huge_index_file div 12 - 1)) = 5
   \<and> map_sum id nextOffset (newSegment empty_file huge_index_file 7 (config_of 1024 51539607564))
       = Inr 8"
proof -
  let ?F = "huge_index_file"
  let ?c = "config_of 1024 51539607564"
  have len: "length ?F = 51539607564" by simp
  then have cnt: "length ?F div 12 = 4294967297" by simp
  have "slice ?F (12 * 4294967296) (12 * 4294967296 + 4) = [0,0,0,5]"
    by (simp add: slice_def)
  then have last: "fst (entry_at ?F (length ?F div 12 - 1)) = 5"
    unfolding cnt by (simp add: entry_at_def Uint32_def)
  define idx where "idx = \<lparr>mmap = ?F, index_size = (51539607564 :: uint64)\<rparr>"
  have ni: "newIndex ?F ?c = Inr idx"
    unfolding newIndex_def Let_def len idx_def by simp
  have nz: "index_size idx \<noteq> 0" by (simp add: idx_def)
  have k: "0 = unat ((if (- 1 :: int64) = - 1 then ucast (index_size idx div entWidth - 1)
                                else ucast (- 1 :: int64)) :: uint32)"
    by (simp add: idx_def)
  have e0: "entry_at (mmap idx) 0 = (0, 0)"
    by (simp add: idx_def entry_at_def slice_def Uint32_def Uint64_def)
  have rd: "index_Read idx (- 1) = Inr (0, 0)"
    using index_Read_slot [OF nz k] e0 by (simp add: idx_def)
  have "newSegment empty_file ?F 7 ?c
      = Inr \<lparr>store = \<lparr>File = empty_file, buf = NewWriter, store_size = 0\<rparr>, index = idx,
              baseOffset = 7, nextOffset = 8, config = ?c\<rparr>"
    by (simp add: newSegment_def newStore_def ni rd)
  then show ?thesis using cnt last by simp
qed




text \<open>
  C7.  If \<open>Append\<close> fails, at whichever stage, \<open>nextOffset\<close> and \<open>baseOffset\<close> are
  what they were, the record carries the offset that the append would have returned, and
  any next append that succeeds returns that same offset; where the record was marshalled
  and the store took its frame, the segment keeps the store with that frame and the
  failure is that of the index write.
\<close>

theorem append_failure_keeps_next_offset:
  assumes "fst (segment_Append marshal s r) = Inl e"
  shows "nextOffset (snd (snd (segment_Append marshal s r))) = nextOffset s
       \<and> baseOffset (snd (snd (segment_Append marshal s r))) = baseOffset s
       \<and> Offset (fst (snd (segment_Append marshal s r))) = nextOffset s
       \<and> (\<forall>r2 off. fst (segment_Append marshal (snd (snd (segment_Append marshal s r))) r2) = Inr off
             \<longrightarrow> off = nextOffset s)
       \<and> (\<forall>p n pos st. marshal (r\<lparr>Offset := nextOffset s\<rparr>) = Inr p
                      \<and> store_Append (store s) p = (Inr (n, pos), st)
             \<longrightarrow> store (snd (snd (segment_Append marshal s r))) = st
               \<and> fst (index_Write (index s) (ucast (nextOffset s - baseOffset s)) pos) \<noteq> None)"
proof -
  obtain res r' s1 where ap: "segment_Append marshal s r = (res, r', s1)"
    by (cases "segment_Append marshal s r") auto
  with assms have res: "res = Inl e" by simp
  from segment_Append_result [OF ap] res
  have a: "nextOffset s1 = nextOffset s" "baseOffset s1 = baseOffset s" "Offset r' = nextOffset s"
    by simp_all
  have b: "off = nextOffset s" if h: "fst (segment_Append marshal s1 r2) = Inr off" for r2 off
  proof -
    obtain r2' s2 where "segment_Append marshal s1 r2 = (Inr off, r2', s2)"
      using h by (cases "segment_Append marshal s1 r2") auto
    from segment_Append_result [OF this] a show ?thesis by simp
  qed
  have c: "store s1 = st \<and> fst (index_Write (index s) (ucast (nextOffset s - baseOffset s)) pos) \<noteq> None"
    if "marshal (r\<lparr>Offset := nextOffset s\<rparr>) = Inr p \<and> store_Append (store s) p = (Inr (n, pos), st)"
    for p n pos st
    using that ap res
    by (auto simp: segment_Append_def Let_def split: sum.splits prod.splits option.splits)
  show ?thesis unfolding ap using a b c by simp blast
qed

theorem append_failure_keeps_next_offset_witness:
  "fst (segment_Append picky_Marshal (fresh_segment 3 24) \<lparr>Value = [], Offset = 0\<rparr>) = Inl CodecError
   \<and> nextOffset (snd (snd (segment_Append picky_Marshal (fresh_segment 3 24) \<lparr>Value = [], Offset = 0\<rparr>))) = 3
   \<and> fst (segment_Append picky_Marshal
            (snd (snd (segment_Append picky_Marshal (fresh_segment 3 24) \<lparr>Value = [], Offset = 0\<rparr>)))
            rec_x) = Inr 3
   \<and> fst (segment_Append proto_Marshal
            (snd (snd (segment_Append proto_Marshal (fresh_segment 3 12) rec_x))) rec_y) = Inl EOF
   \<and> nextOffset (snd (snd (segment_Append proto_Marshal (fresh_segment 3 12) rec_x))) = 4
   \<and> nextOffset (snd (snd (segment_Append proto_Marshal
            (snd (snd (segment_Append proto_Marshal (fresh_segment 3 12) rec_x))) rec_y))) = 4
   \<and> store_size (store (snd (snd (segment_Append proto_Marshal (fresh_segment 3 12) rec_x)))) = 13
   \<and> store_size (store (snd (snd (segment_Append proto_Marshal
            (snd (snd (segment_Append proto_Marshal (fresh_segment 3 12) rec_x))) rec_y)))) = 26"
proof -
  let ?r0 = "\<lparr>Value = [], Offset = 0\<rparr> :: Record"
  define s1 where "s1 = snd (snd (segment_Append picky_Marshal (fresh_segment 3 24) ?r0))"
  have f1: "fst (segment_Append picky_Marshal (fresh_segment 3 24) ?r0) = Inl CodecError"
    by code_simp
  have g1: "fst (segment_Append picky_Marshal s1 rec_x) = Inr 3"
    unfolding s1_def by code_simp
  note t1 = append_failure_keeps_next_offset [OF f1]
  from t1 have n1: "nextOffset s1 = 3" unfolding s1_def by simp
  from t1 g1 have "(3 :: uint64) = nextOffset (fresh_segment 3 24)"
    unfolding s1_def by blast
  define s2 where "s2 = snd (snd (segment_Append proto_Marshal (fresh_segment 3 12) rec_x))"
  define s3 where "s3 = snd (snd (segment_Append proto_Marshal s2 rec_y))"
  have f2: "fst (segment_Append proto_Marshal s2 rec_y) = Inl EOF"
    unfolding s2_def by code_simp
  have n2: "nextOffset s2 = 4" unfolding s2_def by code_simp
  have z2: "store_size (store s2) = 13" unfolding s2_def by code_simp
  have z3: "store_size (store s3) = 26" unfolding s3_def s2_def by code_simp
  note t2 = append_failure_keeps_next_offset [OF f2]
  from t2 have n3: "nextOffset s3 = 4" unfolding s3_def n2 by simp
  show ?thesis
    using f1 n1 g1 f2 n2 n3 z2 z3 unfolding s1_def s2_def s3_def by blast
qed




text \<open>
  Below the base offset, \<open>off = baseOffset - 1\<close> makes \<^verbatim>\<open>int64(off - s.baseOffset)\<close>
  the value \<open>-1\<close>, which \<^verbatim>\<open>index.Read\<close> takes for a request of the last entry.
\<close>

lemma segment_Read_below_base_returns_last:
  "fst (appends proto_Marshal (fresh_segment 16 24) [rec_x]) = [Inr 16]
   \<and> fst (segment_Read proto_Unmarshal (snd (appends proto_Marshal (fresh_segment 16 24) [rec_x])) 15)
       = Inr \<lparr>Value = [120], Offset = 16\<rparr>"
  by code_simp





end
